theory Spec2Isabelle
  imports Complex_Main
begin

section \<open>Numbers, vectors and matrices\<close>

text \<open>
  A C++ \<open>double\<close> is a finite number, one of the two infinities, or not-a-number.
  Finite values are taken as reals: rounding and overflow of finite arithmetic are
  not modelled, and no statement below depends on the value of a finite product or sum.
\<close>

datatype double = Finite real | PosInf | NegInf | NaN

fun dmul :: "double \<Rightarrow> double \<Rightarrow> double" where
  "dmul NaN y = NaN"
| "dmul x NaN = NaN"
| "dmul (Finite a) (Finite b) = Finite (a * b)"
| "dmul (Finite a) PosInf = (if a = 0 then NaN else if 0 < a then PosInf else NegInf)"
| "dmul (Finite a) NegInf = (if a = 0 then NaN else if 0 < a then NegInf else PosInf)"
| "dmul PosInf (Finite b) = (if b = 0 then NaN else if 0 < b then PosInf else NegInf)"
| "dmul NegInf (Finite b) = (if b = 0 then NaN else if 0 < b then NegInf else PosInf)"
| "dmul PosInf PosInf = PosInf"
| "dmul PosInf NegInf = NegInf"
| "dmul NegInf PosInf = NegInf"
| "dmul NegInf NegInf = PosInf"

fun dadd :: "double \<Rightarrow> double \<Rightarrow> double" where
  "dadd NaN y = NaN"
| "dadd x NaN = NaN"
| "dadd (Finite a) (Finite b) = Finite (a + b)"
| "dadd (Finite a) PosInf = PosInf"
| "dadd (Finite a) NegInf = NegInf"
| "dadd PosInf (Finite b) = PosInf"
| "dadd NegInf (Finite b) = NegInf"
| "dadd PosInf PosInf = PosInf"
| "dadd PosInf NegInf = NaN"
| "dadd NegInf PosInf = NaN"
| "dadd NegInf NegInf = NegInf"

type_synonym Vector = "double list"
type_synonym Matrix = "double list list"

text \<open>\<open>inner_prod(a,b)\<close>: the sum of the componentwise products.\<close>

fun inner_prod :: "Vector \<Rightarrow> Vector \<Rightarrow> double" where
  "inner_prod (a # as) (b # bs) = dadd (dmul a b) (inner_prod as bs)"
| "inner_prod as bs = Finite 0"

text \<open>\<open>zero(n)\<close>, \<open>repeat(n, v)\<close> and the identity matrix \<open>eye(n)\<close>.\<close>

definition repeat :: "nat \<Rightarrow> double \<Rightarrow> Vector" where
  "repeat n v = replicate n v"

definition zero :: "nat \<Rightarrow> Vector" where
  "zero n = repeat n (Finite 0)"

definition eye :: "nat \<Rightarrow> Matrix" where
  "eye n = map (\<lambda>i. map (\<lambda>j. if i = j then Finite 1 else Finite 0) [0..<n]) [0..<n]"


section \<open>NonlinearEquality (nonlinear/NonlinearEquality.h)\<close>

text \<open>
  The value type \<open>T\<close> is a template parameter whose Lie-group operations \<open>dim\<close> and
  \<open>logmap\<close> belong to the geometry classes, which are not part of these sources;
  they are taken as parameters.
\<close>

record 't lie_ops =
  dim :: "'t \<Rightarrow> nat"
  logmap :: "'t \<Rightarrow> 't \<Rightarrow> Vector"

datatype noise_model = Constrained_All nat

record ('k, 't) NonlinearEquality =
  noiseModel :: noise_model
  factor_key :: 'k
  feasible :: 't
  allow_error :: bool
  error_gain :: double
  compare :: "'t \<Rightarrow> 't \<Rightarrow> bool"

text \<open>Constructor - forces exact evaluation.\<close>

definition NonlinearEquality_exact ::
  "'t lie_ops \<Rightarrow> 'k \<Rightarrow> 't \<Rightarrow> ('t \<Rightarrow> 't \<Rightarrow> bool) \<Rightarrow> ('k, 't) NonlinearEquality" where
  "NonlinearEquality_exact ops j v cmp =
     \<lparr> noiseModel = Constrained_All (dim ops v), factor_key = j, feasible = v,
       allow_error = False, error_gain = PosInf, compare = cmp \<rparr>"

text \<open>Constructor - allows inexact evaluation.\<close>

definition NonlinearEquality_gain ::
  "'t lie_ops \<Rightarrow> 'k \<Rightarrow> 't \<Rightarrow> double \<Rightarrow> ('t \<Rightarrow> 't \<Rightarrow> bool) \<Rightarrow> ('k, 't) NonlinearEquality" where
  "NonlinearEquality_gain ops j v gain cmp =
     \<lparr> noiseModel = Constrained_All (dim ops v), factor_key = j, feasible = v,
       allow_error = True, error_gain = gain, compare = cmp \<rparr>"

text \<open>
  \<open>error(c)\<close>. A configuration is read at the factor's key (\<open>c[key_]\<close>); it is a
  function from keys to values. \<open>unwhitenedError\<close> is inherited from the base class
  \<open>NonlinearFactor1\<close>, which is not part of these sources: it is the parameter \<open>uw\<close>.
\<close>

definition error ::
  "('k, 't) NonlinearEquality \<Rightarrow> (('k \<Rightarrow> 't) \<Rightarrow> Vector) \<Rightarrow> ('k \<Rightarrow> 't) \<Rightarrow> double" where
  "error f uw c =
     (let xj = c (factor_key f);
          e = uw c
      in if allow_error f \<or> \<not> compare f xj (feasible f)
         then dmul (error_gain f) (inner_prod e e)
         else Finite 0)"

text \<open>
  The exception of \<open>evaluateError\<close>: \<open>std::invalid_argument\<close> with the message
  "Linearization point not feasible for <key>!".
\<close>

datatype 'k invalid_argument = Linearization_point_not_feasible 'k

text \<open>
  \<open>evaluateError(xj, H)\<close>. The optional reference \<open>H\<close> is \<open>Some\<close> matrix when the caller
  asks for the derivative; the function returns the error vector and what \<open>H\<close> holds
  afterwards.
\<close>

definition evaluateError ::
  "'t lie_ops \<Rightarrow> ('k, 't) NonlinearEquality \<Rightarrow> 't \<Rightarrow> Matrix option
     \<Rightarrow> 'k invalid_argument + (Vector \<times> Matrix option)" where
  "evaluateError ops f xj H =
     (let nj = dim ops (feasible f)
      in if allow_error f
         then Inr (logmap ops xj (feasible f), map_option (\<lambda>_. eye nj) H)
         else if compare f (feasible f) xj
         then Inr (zero nj, map_option (\<lambda>_. eye nj) H)
         else (case H of
                 Some _ \<Rightarrow> Inl (Linearization_point_not_feasible (factor_key f))
               | None \<Rightarrow> Inr (repeat nj PosInf, None)))"

record 'k GaussianFactor =
  gf_key :: 'k
  gf_A :: Matrix
  gf_b :: Vector
  gf_model :: noise_model

text \<open>
  \<open>linearize(x)\<close>: the matrix \<open>A\<close> starts empty and is always passed to
  \<open>evaluateError\<close>.
\<close>

definition linearize ::
  "'t lie_ops \<Rightarrow> ('k, 't) NonlinearEquality \<Rightarrow> ('k \<Rightarrow> 't)
     \<Rightarrow> 'k invalid_argument + 'k GaussianFactor" where
  "linearize ops f x =
     (let xj = x (factor_key f)
      in case evaluateError ops f xj (Some []) of
           Inl ex \<Rightarrow> Inl ex
         | Inr (b, H) \<Rightarrow>
             Inr \<lparr> gf_key = factor_key f,
                   gf_A = (case H of Some A \<Rightarrow> A | None \<Rightarrow> []),
                   gf_b = b,
                   gf_model = Constrained_All (length b) \<rparr>)"


section \<open>HybridDiscreteFactor (gtsam/hybrid/HybridDiscreteFactor.cpp)\<close>

type_synonym Key = nat

text \<open>
  A discrete key is a key with its cardinality (discrete/DiscreteKey.h). The wrapped
  factor's table is not read by \<open>equals\<close>; it is the type parameter \<open>'d\<close>.
\<close>

type_synonym DiscreteKey = "Key \<times> nat"

record 'd HybridDiscreteFactor =
  discreteKeys :: "DiscreteKey list"
  inner :: 'd

definition HybridDiscreteFactor_equals ::
  "'d HybridDiscreteFactor \<Rightarrow> 'd HybridDiscreteFactor \<Rightarrow> double \<Rightarrow> bool" where
  "HybridDiscreteFactor_equals this lf tol = False"



section \<open>HybridBayesTree::optimize (gtsam/hybrid, HybridBayesTree.cpp)\<close>

text \<open>A discrete assignment (\<open>DiscreteValues\<close>) gives a value to some discrete keys.\<close>

type_synonym DiscreteValues = "Key \<Rightarrow> nat option"

text \<open>
  Modelled from the spec: the decision mapping of a Hybrid conditional and its lookup
  (\<open>GaussianMixture::operator()\<close>), whose class is not part of these sources. A Hybrid
  conditional stores one Gaussian conditional per discrete assignment: a decision tree
  that branches on one discrete key per level, with a Gaussian conditional at each leaf.
  The lookup follows the assignment from the root, one level per key, and selects
  nothing when the assignment has no value for a key it meets or the value has no branch.
  The Gaussian conditional itself is numeric content: the type parameter \<open>'g\<close>.
\<close>

datatype 'g DecisionTree = Leaf 'g | Choice Key "'g DecisionTree list"

function select_branch :: "'g DecisionTree \<Rightarrow> DiscreteValues \<Rightarrow> 'g option" where
  "select_branch (Leaf g) a = Some g"
| "select_branch (Choice k bs) a =
     (case a k of
        None \<Rightarrow> None
      | Some i \<Rightarrow> if i < length bs then select_branch (bs ! i) a else None)"
  by pat_completeness auto
termination
proof (relation "measure (\<lambda>(t, a). size t)")
  show "wf (measure (\<lambda>(t, a). size t))" by simp
next
  fix k :: Key and bs :: "'g DecisionTree list" and a :: DiscreteValues and i
  assume "a k = Some i" and "i < length bs"
  then have "bs ! i \<in> set bs" by simp
  then have "size (bs ! i) \<le> size_list size bs"
    by (rule size_list_estimation') simp
  then show "((bs ! i, a), (Choice k bs, a)) \<in> measure (\<lambda>(t, a). size t)" by simp
qed

text \<open>
  Modelled from the spec: \<open>HybridConditional\<close> with \<open>frontals()\<close>, \<open>isHybrid()\<close> and
  \<open>asMixture()\<close>, whose class is not part of these sources. A conditional is a closed
  variant over the kinds Gaussian, Discrete and Hybrid; \<open>asMixture\<close> is the downcast,
  null on the other kinds.
\<close>

datatype ('g, 'd) conditional_kind =
  Gaussian 'g | Discrete 'd | Hybrid "'g DecisionTree"

record ('g, 'd) HybridConditional =
  frontals :: "Key list"
  kind :: "('g, 'd) conditional_kind"

definition isHybrid :: "('g, 'd) HybridConditional \<Rightarrow> bool" where
  "isHybrid c = (case kind c of Hybrid gm \<Rightarrow> True | _ \<Rightarrow> False)"

definition asMixture :: "('g, 'd) HybridConditional \<Rightarrow> 'g DecisionTree option" where
  "asMixture c = (case kind c of Hybrid gm \<Rightarrow> Some gm | _ \<Rightarrow> None)"

record ('g, 'd) HybridBayesTreeClique =
  conditional :: "('g, 'd) HybridConditional"

text \<open>
  \<open>nodes()\<close> is the tree's index from keys to cliques; the loop runs over its entries
  in the container's order, so it is the list of entries in that order.
\<close>

type_synonym ('g, 'd) Nodes = "(Key \<times> ('g, 'd) HybridBayesTreeClique) list"

datatype optimize_error = Null_mixture | No_matching_branch

text \<open>
  The loop of \<open>optimize\<close> over \<open>nodes()\<close>, with its two local variables \<open>added_keys\<close>
  and \<open>gbn\<close>. Dereferencing a null mixture and a lookup that selects nothing end the call.
\<close>

fun optimize_loop ::
  "DiscreteValues \<Rightarrow> ('g, 'd) Nodes \<Rightarrow> Key list \<Rightarrow> 'g list \<Rightarrow> optimize_error + 'g list" where
  "optimize_loop assignment [] added_keys gbn = Inr gbn"
| "optimize_loop assignment (node # rest) added_keys gbn =
     (if fst node \<notin> set added_keys
      then (let clique = snd node;
                cond = conditional clique;
                added_keys' = added_keys @ frontals cond
            in if isHybrid cond
               then (case asMixture cond of
                       None \<Rightarrow> Inl Null_mixture
                     | Some gm \<Rightarrow>
                         (case select_branch gm assignment of
                            None \<Rightarrow> Inl No_matching_branch
                          | Some gaussian_conditional \<Rightarrow>
                              optimize_loop assignment rest added_keys'
                                (gbn @ [gaussian_conditional])))
               else optimize_loop assignment rest added_keys' gbn)
      else optimize_loop assignment rest added_keys gbn)"

text \<open>The Gaussian Bayes net that \<open>optimize\<close> has built when the loop ends.\<close>

definition optimize_bayes_net ::
  "DiscreteValues \<Rightarrow> ('g, 'd) Nodes \<Rightarrow> optimize_error + 'g list" where
  "optimize_bayes_net assignment ns = optimize_loop assignment ns [] []"

text \<open>
  \<open>optimize\<close> returns \<open>gbn.optimize()\<close>, the back-substitution of the Gaussian Bayes
  net, which is numeric and not part of these sources: the parameter \<open>solve\<close>.
\<close>

definition optimize ::
  "('g list \<Rightarrow> 'v) \<Rightarrow> DiscreteValues \<Rightarrow> ('g, 'd) Nodes \<Rightarrow> optimize_error + 'v" where
  "optimize solve assignment ns =
     (case optimize_bayes_net assignment ns of
        Inl e \<Rightarrow> Inl e
      | Inr gbn \<Rightarrow> Inr (solve gbn))"

text \<open>
  The index invariant of a Bayes tree: a key has one entry, the entry of a key leads to
  a clique where the key is frontal, and every frontal key of that clique leads to it.
\<close>

definition nodes_consistent :: "('g, 'd) Nodes \<Rightarrow> bool" where
  "nodes_consistent ns =
     (distinct (map fst ns) \<and>
      (\<forall>n\<in>set ns. fst n \<in> set (frontals (conditional (snd n))) \<and>
         (\<forall>j\<in>set (frontals (conditional (snd n))). (j, snd n) \<in> set ns)))"

text \<open>
  The cliques whose body the loop enters, in order: those reached under a key that is
  not among the added keys at that moment.
\<close>

fun entered :: "('g, 'd) Nodes \<Rightarrow> Key list \<Rightarrow> ('g, 'd) HybridBayesTreeClique list" where
  "entered [] added_keys = []"
| "entered (node # rest) added_keys =
     (if fst node \<notin> set added_keys
      then snd node # entered rest (added_keys @ frontals (conditional (snd node)))
      else entered rest added_keys)"

text \<open>What a clique emits under an assignment, if it is Hybrid.\<close>

definition emitted ::
  "DiscreteValues \<Rightarrow> ('g, 'd) HybridBayesTreeClique \<Rightarrow> 'g option" where
  "emitted assignment clique =
     (case asMixture (conditional clique) of
        None \<Rightarrow> None
      | Some gm \<Rightarrow> select_branch gm assignment)"

text \<open>
  The hybrid scenario: a clique with a Hybrid conditional over the continuous key \<open>y\<close>
  given the binary discrete key \<open>m\<close>, one Gaussian branch per value of \<open>m\<close>, and the
  clique of \<open>m\<close> itself with a Discrete conditional.
\<close>

definition mixture_clique :: "Key \<Rightarrow> Key \<Rightarrow> 'g \<Rightarrow> 'g \<Rightarrow> ('g, 'd) HybridBayesTreeClique" where
  "mixture_clique y m g0 g1 =
     \<lparr> conditional = \<lparr> frontals = [y], kind = Hybrid (Choice m [Leaf g0, Leaf g1]) \<rparr> \<rparr>"

definition discrete_clique :: "Key \<Rightarrow> 'd \<Rightarrow> ('g, 'd) HybridBayesTreeClique" where
  "discrete_clique m d = \<lparr> conditional = \<lparr> frontals = [m], kind = Discrete d \<rparr> \<rparr>"


section \<open>The Bayes tree used by ISAM\<close>

text \<open>
  \<open>ISAM::update_internal\<close> (ISAM-inl.h) is part of these sources; the \<open>BayesTree\<close>,
  \<open>FactorGraph\<close> and elimination code it calls is not, and is modelled from the spec.
  Cliques live in an arena addressed by clique identifiers, so that the parent
  back-reference and the child links are identifiers and a detached orphan keeps its
  place in the arena. Identifiers are handed out in increasing order.
\<close>

type_synonym Symbol = nat
type_synonym cid = nat

text \<open>
  Modelled from the spec: a factor is a function over an ordered subset of keys; a
  conditional is a distribution over frontal variables given a separator. The numeric
  content of both is the type parameter \<open>'a\<close>.
\<close>

record 'a Factor =
  keys :: "Symbol list"
  payload :: 'a

record 'a Conditional =
  cond_frontals :: "Symbol list"
  cond_parents :: "Symbol list"
  cond_content :: 'a

text \<open>
  Modelled from the spec: a clique owns one conditional and holds its separator, the
  links to its children and the back-reference to its parent. The tree is the set of
  cliques with the index from each variable to the clique where it is frontal.
\<close>

record 'a Clique =
  clique_conditional :: "'a Conditional"
  separator :: "Symbol list"
  children :: "cid list"
  parent :: "cid option"

record 'a BayesTree =
  cliques :: "cid \<Rightarrow> 'a Clique option"
  nodes :: "Symbol \<Rightarrow> cid option"
  roots :: "cid list"
  next_id :: cid

definition empty_tree :: "'a BayesTree" where
  "empty_tree = \<lparr> cliques = (\<lambda>i. None), nodes = (\<lambda>k. None), roots = [], next_id = 0 \<rparr>"

datatype update_error = StructuralError | NumericDegeneracy | UnknownKey

text \<open>
  The cliques from \<open>c\<close> up to its root, following the parent back-references. No such
  path is longer than the number of identifiers handed out, which bounds the walk.
\<close>

fun path_to_root :: "nat \<Rightarrow> 'a BayesTree \<Rightarrow> cid \<Rightarrow> cid list" where
  "path_to_root 0 t c = []"
| "path_to_root (Suc n) t c =
     c # (case cliques t c of
            None \<Rightarrow> []
          | Some cl \<Rightarrow> (case parent cl of None \<Rightarrow> [] | Some p \<Rightarrow> path_to_root n t p))"

definition ancestor_or_self :: "'a BayesTree \<Rightarrow> cid \<Rightarrow> cid \<Rightarrow> bool" where
  "ancestor_or_self t a c = (a \<in> set (path_to_root (next_id t) t c))"

text \<open>The cliques of the subtree rooted at \<open>c\<close>, following the child links.\<close>

fun subtree :: "nat \<Rightarrow> 'a BayesTree \<Rightarrow> cid \<Rightarrow> cid list" where
  "subtree 0 t c = []"
| "subtree (Suc n) t c =
     c # (case cliques t c of
            None \<Rightarrow> []
          | Some cl \<Rightarrow> concat (map (subtree n t) (children cl)))"

text \<open>
  The property the parent search of the spec looks for: \<open>p\<close> owns a variable of the
  separator, and every variable of the separator is frontal in \<open>p\<close> or in an ancestor
  of \<open>p\<close>. Owning cliques in two disjoint subtrees leave no such clique.
\<close>

definition separator_ancestor :: "'a BayesTree \<Rightarrow> Symbol list \<Rightarrow> cid \<Rightarrow> bool" where
  "separator_ancestor t sep p =
     ((\<exists>k\<in>set sep. nodes t k = Some p) \<and>
      (\<forall>k\<in>set sep. case nodes t k of
                       None \<Rightarrow> False
                     | Some q \<Rightarrow> ancestor_or_self t q p))"

text \<open>
  Modelled from the spec: \<open>findParentClique\<close>, which is not part of these sources.
  For each separator variable find its owning clique; the owning cliques must be
  identical or nested under one ancestor, and the target is that unique clique. When
  there is no single such clique the call fails with a structural error. The result is
  a separator variable owned by the target, as the callers look the clique up by key.
  The second argument is the index table of the ordering, as the callers pass it.
\<close>

definition findParentClique ::
  "Symbol list \<Rightarrow> Symbol list \<Rightarrow> 'a BayesTree \<Rightarrow> update_error + Symbol" where
  "findParentClique sep index t =
     (case filter (\<lambda>k. case nodes t k of
                         None \<Rightarrow> False
                       | Some p \<Rightarrow> separator_ancestor t sep p) sep of
        [] \<Rightarrow> Inl StructuralError
      | k # ks \<Rightarrow>
          if list_all (\<lambda>k'. nodes t k' = nodes t k) ks
          then Inr k
          else Inl StructuralError)"

text \<open>
  Modelled from the spec: \<open>find(key)\<close>, the index lookup, and \<open>operator[]\<close> on the tree,
  which are not part of these sources. \<open>operator[]\<close> is the lookup of a key that has to
  be there; a key outside the index is an unknown key, and an index entry has to lead
  to a clique of the arena.
\<close>

definition find_clique :: "'a BayesTree \<Rightarrow> Symbol \<Rightarrow> cid option" where
  "find_clique t k = nodes t k"

definition clique_at :: "'a BayesTree \<Rightarrow> Symbol \<Rightarrow> update_error + cid" where
  "clique_at t k =
     (case find_clique t k of
        None \<Rightarrow> Inl UnknownKey
      | Some p \<Rightarrow> (case cliques t p of None \<Rightarrow> Inl StructuralError | Some cl \<Rightarrow> Inr p))"

text \<open>The two link updates: \<open>parent->children_ += child\<close> and \<open>child->parent_ = parent\<close>.\<close>

definition add_child :: "cid \<Rightarrow> cid \<Rightarrow> 'a BayesTree \<Rightarrow> 'a BayesTree" where
  "add_child par ch t =
     (case cliques t par of
        None \<Rightarrow> t
      | Some pc \<Rightarrow> t\<lparr>cliques := (cliques t)(par \<mapsto> pc\<lparr>children := children pc @ [ch]\<rparr>)\<rparr>)"

definition set_parent :: "cid \<Rightarrow> cid \<Rightarrow> 'a BayesTree \<Rightarrow> 'a BayesTree" where
  "set_parent ch par t =
     (case cliques t ch of
        None \<Rightarrow> t
      | Some cc \<Rightarrow> t\<lparr>cliques := (cliques t)(ch \<mapsto> cc\<lparr>parent := Some par\<rparr>)\<rparr>)"

text \<open>
  Modelled from the spec: creating a clique that holds a conditional, attached as a
  child of the parent or as a new root, with each frontal variable registered in the
  index. The new clique takes the next identifier.
\<close>

definition addClique :: "'a Conditional \<Rightarrow> cid option \<Rightarrow> 'a BayesTree \<Rightarrow> 'a BayesTree" where
  "addClique c par t =
     (let i = next_id t;
          cl = \<lparr> clique_conditional = c, separator = cond_parents c,
                 children = [], parent = par \<rparr>;
          t1 = t\<lparr>cliques := (cliques t)(i \<mapsto> cl), next_id := Suc i\<rparr>;
          t2 = (case par of
                  None \<Rightarrow> t1\<lparr>roots := roots t1 @ [i]\<rparr>
                | Some p \<Rightarrow> add_child p i t1)
      in t2\<lparr>nodes := fold (\<lambda>k m. m(k \<mapsto> i)) (cond_frontals c) (nodes t2)\<rparr>)"

text \<open>
  Modelled from the spec: \<open>insert(conditional)\<close>, which is not part of these sources.
  The separator is read from the conditional; with an empty separator the clique
  becomes a new root, otherwise the parent is the clique found by the search above,
  and the call fails with a structural error when there is none.
\<close>

definition insert_conditional ::
  "'a Conditional \<Rightarrow> Symbol list \<Rightarrow> 'a BayesTree \<Rightarrow> update_error + 'a BayesTree" where
  "insert_conditional c index t =
     (if cond_parents c = []
      then Inr (addClique c None t)
      else (case findParentClique (cond_parents c) index t of
              Inl e \<Rightarrow> Inl e
            | Inr parentRepresentative \<Rightarrow>
                (case clique_at t parentRepresentative of
                   Inl e \<Rightarrow> Inl e
                 | Inr par \<Rightarrow> Inr (addClique c (Some par) t))))"

text \<open>
  Modelled from the spec: \<open>removeTop(keys)\<close>, which is not part of these sources.
  The owning cliques of the keys are located (a key outside the tree is ignored); of
  these the topmost are selected, a clique below another owning clique not separately;
  the whole subtree of each selected clique is collected. The conditionals of the
  collected cliques are returned; the children of collected cliques that are not
  collected themselves are the orphans, detached with their parent link cleared; the
  collected cliques leave the tree and their frontal variables leave the index.
\<close>

definition owning_cliques :: "'a BayesTree \<Rightarrow> Symbol list \<Rightarrow> cid list" where
  "owning_cliques t ks = remdups (concat (map (\<lambda>k. case nodes t k of None \<Rightarrow> [] | Some p \<Rightarrow> [p]) ks))"

definition topmost :: "'a BayesTree \<Rightarrow> cid list \<Rightarrow> cid list" where
  "topmost t ps = filter (\<lambda>p. \<forall>q\<in>set ps. q = p \<or> \<not> ancestor_or_self t q p) ps"

definition collect :: "'a BayesTree \<Rightarrow> cid list \<Rightarrow> cid list" where
  "collect t ps = remdups (concat (map (subtree (next_id t) t) ps))"

definition clique_field :: "'a BayesTree \<Rightarrow> ('a Clique \<Rightarrow> 'b list) \<Rightarrow> cid \<Rightarrow> 'b list" where
  "clique_field t f i = (case cliques t i of None \<Rightarrow> [] | Some cl \<Rightarrow> f cl)"

definition clear_parent :: "cid \<Rightarrow> 'a BayesTree \<Rightarrow> 'a BayesTree" where
  "clear_parent ch t =
     (case cliques t ch of
        None \<Rightarrow> t
      | Some cc \<Rightarrow> t\<lparr>cliques := (cliques t)(ch \<mapsto> cc\<lparr>parent := None\<rparr>)\<rparr>)"

definition drop_clique :: "cid \<Rightarrow> 'a BayesTree \<Rightarrow> 'a BayesTree" where
  "drop_clique i t =
     t\<lparr>cliques := (\<lambda>j. if j = i then None
                        else map_option (\<lambda>cl. cl\<lparr>children := removeAll i (children cl)\<rparr>)
                               (cliques t j)),
       nodes := fold (\<lambda>k m. m(k := None))
                  (clique_field t (\<lambda>cl. cond_frontals (clique_conditional cl)) i) (nodes t),
       roots := removeAll i (roots t)\<rparr>"

definition removeTop ::
  "Symbol list \<Rightarrow> 'a BayesTree \<Rightarrow> 'a Conditional list \<times> cid list \<times> 'a BayesTree" where
  "removeTop ks t =
     (let selected = topmost t (owning_cliques t ks);
          collected = collect t selected;
          bn = concat (map (clique_field t (\<lambda>cl. [clique_conditional cl])) collected);
          orphans = remdups (filter (\<lambda>ch. ch \<notin> set collected)
                               (concat (map (clique_field t children) collected)))
      in (bn, orphans, fold drop_clique collected (fold clear_parent orphans t)))"

text \<open>
  Modelled from the spec: the factor graph's \<open>keys()\<close>, the union of the keys of its
  factors, and the conversion of a Bayes net into a factor graph, each conditional
  taken back as a plain factor over its frontal and separator variables.
\<close>

definition graph_keys :: "'a Factor list \<Rightarrow> Symbol list" where
  "graph_keys fs = remdups (concat (map keys fs))"

definition factor_of :: "'a Conditional \<Rightarrow> 'a Factor" where
  "factor_of c = \<lparr> keys = cond_frontals c @ cond_parents c, payload = cond_content c \<rparr>"

text \<open>
  The ordering policy is free (\<open>getOrdering\<close>, or the sorted keys under \<open>SORT_KEYS\<close>):
  it is a parameter, and it is valid on a graph when it lists every variable of the
  graph exactly once.
\<close>

definition valid_ordering :: "'a Factor list \<Rightarrow> Symbol list \<Rightarrow> bool" where
  "valid_ordering fs vs = (distinct vs \<and> set vs = set (graph_keys fs))"

text \<open>
  Modelled from the spec: \<open>eliminate(factors, ordering)\<close>, which is not part of these
  sources. For each variable in ordering order the factors touching it are combined
  and factored into a conditional on the variable given the remaining variables and a
  residual factor over those, which replaces the consumed factors. The numeric
  factorisation is the parameter \<open>fac\<close>, which gives the content of the conditional and
  of the residual, or nothing when the local block is degenerate.
\<close>

definition eliminate_one ::
  "(Symbol \<Rightarrow> 'a Factor list \<Rightarrow> ('a \<times> 'a) option) \<Rightarrow> Symbol \<Rightarrow> 'a Factor list
     \<Rightarrow> update_error + ('a Conditional \<times> 'a Factor list)" where
  "eliminate_one fac v fs =
     (let touching = filter (\<lambda>f. v \<in> set (keys f)) fs;
          untouched = filter (\<lambda>f. v \<notin> set (keys f)) fs;
          remaining = removeAll v (graph_keys touching)
      in case fac v touching of
           None \<Rightarrow> Inl NumericDegeneracy
         | Some (cc, rc) \<Rightarrow>
             Inr (\<lparr> cond_frontals = [v], cond_parents = remaining, cond_content = cc \<rparr>,
                  untouched @ [\<lparr> keys = remaining, payload = rc \<rparr>]))"

fun eliminate ::
  "(Symbol \<Rightarrow> 'a Factor list \<Rightarrow> ('a \<times> 'a) option) \<Rightarrow> 'a Factor list \<Rightarrow> Symbol list
     \<Rightarrow> update_error + 'a Conditional list" where
  "eliminate fac fs [] = Inr []"
| "eliminate fac fs (v # vs) =
     (case eliminate_one fac v fs of
        Inl e \<Rightarrow> Inl e
      | Inr (c, fs') \<Rightarrow>
          (case eliminate fac fs' vs of
             Inl e \<Rightarrow> Inl e
           | Inr cs \<Rightarrow> Inr (c # cs)))"


section \<open>ISAM::update_internal (inference/ISAM-inl.h)\<close>

text \<open>The loop that inserts the conditionals it is given, in the order given.\<close>

fun insert_all ::
  "'a Conditional list \<Rightarrow> Symbol list \<Rightarrow> 'a BayesTree \<Rightarrow> update_error + 'a BayesTree" where
  "insert_all [] index t = Inr t"
| "insert_all (c # cs) index t =
     (case insert_conditional c index t of
        Inl e \<Rightarrow> Inl e
      | Inr t' \<Rightarrow> insert_all cs index t')"

text \<open>
  The loop over the orphans. An orphan is a clique of the arena; its separator is read
  from it.
\<close>

fun reattach_orphans ::
  "cid list \<Rightarrow> Symbol list \<Rightarrow> 'a BayesTree \<Rightarrow> update_error + 'a BayesTree" where
  "reattach_orphans [] index t = Inr t"
| "reattach_orphans (orphan # rest) index t =
     (case cliques t orphan of
        None \<Rightarrow> Inl StructuralError
      | Some oc \<Rightarrow>
          (case findParentClique (separator oc) index t of
             Inl e \<Rightarrow> Inl e
           | Inr parentRepresentative \<Rightarrow>
               (case clique_at t parentRepresentative of
                  Inl e \<Rightarrow> Inl e
                | Inr par \<Rightarrow>
                    reattach_orphans rest index
                      (set_parent orphan par (add_child par orphan t)))))"

text \<open>
  The body of \<open>update_internal\<close> after the removal: the freed conditionals \<open>bn\<close>, the
  orphans and the topless tree come from \<open>removeTop\<close>. The index table is built from
  the ordering; the conditionals of the new Bayes net are inserted through the reverse
  iterator, and then the orphans are added to the bottom of the new tree.
\<close>

definition rebuild ::
  "('a Factor list \<Rightarrow> Symbol list) \<Rightarrow> (Symbol \<Rightarrow> 'a Factor list \<Rightarrow> ('a \<times> 'a) option)
     \<Rightarrow> 'a Factor list \<Rightarrow> 'a Conditional list \<Rightarrow> cid list \<Rightarrow> 'a BayesTree
     \<Rightarrow> update_error + 'a BayesTree" where
  "rebuild getOrdering fac newFactors bn orphans t =
     (let factors = map factor_of bn @ newFactors;
          ordering' = getOrdering factors;
          index = ordering'
      in case eliminate fac factors ordering' of
           Inl e \<Rightarrow> Inl e
         | Inr bayesNet \<Rightarrow>
             (case insert_all (rev bayesNet) index t of
                Inl e \<Rightarrow> Inl e
              | Inr t' \<Rightarrow> reattach_orphans orphans index t'))"

definition update_internal ::
  "('a Factor list \<Rightarrow> Symbol list) \<Rightarrow> (Symbol \<Rightarrow> 'a Factor list \<Rightarrow> ('a \<times> 'a) option)
     \<Rightarrow> 'a Factor list \<Rightarrow> 'a BayesTree \<Rightarrow> update_error + 'a BayesTree" where
  "update_internal getOrdering fac newFactors t =
     (case removeTop (graph_keys newFactors) t of
        (bn, orphans, t') \<Rightarrow> rebuild getOrdering fac newFactors bn orphans t')"

text \<open>
  \<open>update\<close> hands \<open>update_internal\<close> an empty list of orphans, which \<open>removeTop\<close>
  fills; the list is therefore a result of the removal and not an argument here.
\<close>

definition update ::
  "('a Factor list \<Rightarrow> Symbol list) \<Rightarrow> (Symbol \<Rightarrow> 'a Factor list \<Rightarrow> ('a \<times> 'a) option)
     \<Rightarrow> 'a Factor list \<Rightarrow> 'a BayesTree \<Rightarrow> update_error + 'a BayesTree" where
  "update getOrdering fac newFactors t = update_internal getOrdering fac newFactors t"


text \<open>
  What the statements below read off a tree: the conditional stored at a clique
  identifier, the parent back-reference of a clique and the child links of a clique.
\<close>

definition cond_at :: "'a BayesTree \<Rightarrow> cid \<Rightarrow> 'a Conditional option" where
  "cond_at t i = map_option clique_conditional (cliques t i)"

definition parent_of :: "'a BayesTree \<Rightarrow> cid \<Rightarrow> cid option" where
  "parent_of t i = (case cliques t i of None \<Rightarrow> None | Some cl \<Rightarrow> parent cl)"

definition children_of :: "'a BayesTree \<Rightarrow> cid \<Rightarrow> cid list" where
  "children_of t i = clique_field t children i"


section \<open>Concrete instances\<close>

text \<open>
  Values on the integers, where \<open>logmap\<close> is the difference and the dimension is one;
  a factor of each mode that holds key 1 at the value 0, compared by equality; and a
  configuration that puts every key at 5.
\<close>

definition int_ops :: "int lie_ops" where
  "int_ops = \<lparr> dim = (\<lambda>v. 1), logmap = (\<lambda>x y. [Finite (real_of_int (y - x))]) \<rparr>"

definition exact_factor :: "(nat, int) NonlinearEquality" where
  "exact_factor = NonlinearEquality_exact int_ops 1 0 (=)"

definition gain_factor :: "(nat, int) NonlinearEquality" where
  "gain_factor = NonlinearEquality_gain int_ops 1 0 (Finite 1) (=)"

definition config5 :: "nat \<Rightarrow> int" where
  "config5 k = 5"

definition config0 :: "nat \<Rightarrow> int" where
  "config0 k = 0"

definition int_unwhitened :: "(nat \<Rightarrow> int) \<Rightarrow> Vector" where
  "int_unwhitened c = [Finite (real_of_int (0 - c 1))]"


text \<open>
  Hybrid trees whose Gaussian conditionals are numbered: the discrete key is 1; a clique
  with the two frontal keys 2 and 3 holds a Hybrid conditional with the branches 10 and
  11; a clique with the frontal key 4 holds the Gaussian conditional 20.
\<close>

definition assignment0 :: DiscreteValues where
  "assignment0 = Map.empty(1 \<mapsto> 0)"

definition pair_clique :: "(nat, unit) HybridBayesTreeClique" where
  "pair_clique =
     \<lparr> conditional = \<lparr> frontals = [2, 3], kind = Hybrid (Choice 1 [Leaf 10, Leaf 11]) \<rparr> \<rparr>"

definition gaussian_clique :: "(nat, unit) HybridBayesTreeClique" where
  "gaussian_clique = \<lparr> conditional = \<lparr> frontals = [4], kind = Gaussian 20 \<rparr> \<rparr>"

definition pair_nodes :: "(nat, unit) Nodes" where
  "pair_nodes =
     [(1, discrete_clique 1 ()), (2, pair_clique), (3, pair_clique), (4, gaussian_clique)]"

definition plain_nodes :: "(nat, unit) Nodes" where
  "plain_nodes = [(1, discrete_clique 1 ()), (4, gaussian_clique)]"

definition scenario_nodes :: "(nat, unit) Nodes" where
  "scenario_nodes = [(1, discrete_clique 1 ()), (2, mixture_clique 2 1 10 11)]"


text \<open>
  Trees without numeric content, where every local factorisation succeeds. In
  \<open>orphan_tree\<close> the clique 0, with frontal variable 3 and separator 2, is detached and
  waits for a parent; in \<open>split_tree\<close> its separator is 2 and 5.
\<close>

definition unit_fac :: "Symbol \<Rightarrow> unit Factor list \<Rightarrow> (unit \<times> unit) option" where
  "unit_fac v fs = Some ((), ())"

definition orphan_tree :: "unit BayesTree" where
  "orphan_tree =
     \<lparr> cliques = Map.empty(0 \<mapsto>
         \<lparr> clique_conditional = \<lparr> cond_frontals = [3], cond_parents = [2], cond_content = () \<rparr>,
           separator = [2], children = [], parent = None \<rparr>),
       nodes = Map.empty(3 \<mapsto> 0), roots = [], next_id = 1 \<rparr>"

definition split_tree :: "unit BayesTree" where
  "split_tree =
     \<lparr> cliques = Map.empty(0 \<mapsto>
         \<lparr> clique_conditional = \<lparr> cond_frontals = [3], cond_parents = [2, 5], cond_content = () \<rparr>,
           separator = [2, 5], children = [], parent = None \<rparr>),
       nodes = Map.empty(3 \<mapsto> 0), roots = [], next_id = 1 \<rparr>"

definition freed_2 :: "unit Conditional list" where
  "freed_2 = [\<lparr> cond_frontals = [2], cond_parents = [], cond_content = () \<rparr>]"

definition factors_24 :: "unit Factor list" where
  "factors_24 = [\<lparr> keys = [2, 4], payload = () \<rparr>]"

definition factors_2_5 :: "unit Factor list" where
  "factors_2_5 = [\<lparr> keys = [2], payload = () \<rparr>, \<lparr> keys = [5], payload = () \<rparr>]"


text \<open>
  The tree of the factors \<open>f(1)\<close> and \<open>f(1,2)\<close> eliminated in the order 1, 2: the root
  clique 0 holds the conditional on 2, its child 1 the conditional on 1 given 2.
\<close>

definition factors_1_12 :: "unit Factor list" where
  "factors_1_12 = [\<lparr> keys = [1], payload = () \<rparr>, \<lparr> keys = [1, 2], payload = () \<rparr>]"

definition chain_tree :: "unit BayesTree" where
  "chain_tree =
     \<lparr> cliques = Map.empty(
         0 \<mapsto> \<lparr> clique_conditional = \<lparr> cond_frontals = [2], cond_parents = [], cond_content = () \<rparr>,
                separator = [], children = [1], parent = None \<rparr>,
         1 \<mapsto> \<lparr> clique_conditional = \<lparr> cond_frontals = [1], cond_parents = [2], cond_content = () \<rparr>,
                separator = [2], children = [], parent = Some 0 \<rparr>),
       nodes = Map.empty(2 \<mapsto> 0, 1 \<mapsto> 1), roots = [0], next_id = 2 \<rparr>"


section \<open>Properties of NonlinearEquality\<close>

text \<open>
  C10. For a factor built by the exact constructor (\<open>allow_error\<close> false) and every
  configuration, \<open>error\<close> is exactly 0.0 when the stored compare function declares the
  configuration's value at the constrained key equal to the feasible value, and
  \<open>error_gain\<close> times the squared norm of the unwhitened error otherwise.
\<close>

theorem error_exact_mode:
  "error (NonlinearEquality_exact ops j v cmp) uw c =
     (if cmp (c j) v then Finite 0
      else dmul (error_gain (NonlinearEquality_exact ops j v cmp))
             (inner_prod (uw c) (uw c)))"
  by (simp add: error_def NonlinearEquality_exact_def Let_def)

theorem error_exact_mode_witness:
  "error exact_factor int_unwhitened config0 = Finite 0 \<and>
   error exact_factor int_unwhitened config5 = PosInf"
  using error_exact_mode [of int_ops 1 0 "(=)" int_unwhitened config0]
        error_exact_mode [of int_ops 1 0 "(=)" int_unwhitened config5]
  by (simp add: exact_factor_def config0_def config5_def int_unwhitened_def
        NonlinearEquality_exact_def)

text \<open>
  C5, as amended. For every hard-equality factor in exact mode (\<open>allow_error\<close> false),
  at a linearization point that does not compare equal to the feasible value,
  \<open>evaluateError\<close> with the derivative requested and \<open>linearize\<close> both end with the
  invalid-argument error, and return no values at all.
\<close>

theorem infeasible_exact_reported:
  assumes "\<not> allow_error f"
    and "\<not> compare f (feasible f) (x (factor_key f))"
  shows "evaluateError ops f (x (factor_key f)) (Some A)
           = Inl (Linearization_point_not_feasible (factor_key f)) \<and>
         linearize ops f x = Inl (Linearization_point_not_feasible (factor_key f))"
  using assms by (simp add: evaluateError_def linearize_def Let_def)

theorem infeasible_exact_reported_witness:
  "\<not> allow_error exact_factor \<and>
   \<not> compare exact_factor (feasible exact_factor) (config5 (factor_key exact_factor)) \<and>
   evaluateError int_ops exact_factor (config5 (factor_key exact_factor)) (Some [])
     = Inl (Linearization_point_not_feasible 1) \<and>
   linearize int_ops exact_factor config5 = Inl (Linearization_point_not_feasible 1)"
proof -
  have a: "\<not> allow_error exact_factor"
    by (simp add: exact_factor_def NonlinearEquality_exact_def)
  have b: "\<not> compare exact_factor (feasible exact_factor) (config5 (factor_key exact_factor))"
    by (simp add: exact_factor_def NonlinearEquality_exact_def config5_def)
  have k: "factor_key exact_factor = 1"
    by (simp add: exact_factor_def NonlinearEquality_exact_def)
  show ?thesis
    using a b infeasible_exact_reported [of exact_factor config5 int_ops "[]"]
    by (simp add: k)
qed

text \<open>
  C5 as stated covers every hard-equality factor. A factor built by the constructor
  that allows inexact evaluation is linearized at an infeasible point without any
  error: the caller gets a factor whose right-hand side is the \<open>logmap\<close> of the point.
\<close>

theorem infeasible_gain_not_reported:
  "\<not> compare gain_factor (feasible gain_factor) (config5 (factor_key gain_factor)) \<and>
   linearize int_ops gain_factor config5
     = Inr \<lparr> gf_key = 1, gf_A = [[Finite 1]], gf_b = [Finite (- 5)],
             gf_model = Constrained_All 1 \<rparr>"
  by (simp add: gain_factor_def NonlinearEquality_gain_def config5_def linearize_def
        evaluateError_def int_ops_def eye_def Let_def)


section \<open>Properties of HybridDiscreteFactor\<close>

text \<open>
  C8. \<open>HybridDiscreteFactor::equals\<close> is false for every pair of factors and every
  tolerance, also for a factor and itself: it is not reflexive.
\<close>

theorem equals_always_false:
  "\<not> HybridDiscreteFactor_equals a b tol \<and> \<not> HybridDiscreteFactor_equals a a tol"
  by (simp add: HybridDiscreteFactor_equals_def)


section \<open>Properties of HybridBayesTree::optimize\<close>

subsection \<open>The loop and the cliques it enters\<close>

lemma isHybrid_asMixture: "isHybrid c \<Longrightarrow> \<exists>gm. asMixture c = Some gm \<and> kind c = Hybrid gm"
  by (cases "kind c") (simp_all add: isHybrid_def asMixture_def)

lemma not_isHybrid_emitted: "\<not> isHybrid (conditional c) \<Longrightarrow> emitted a c = None"
  by (cases "kind (conditional c)") (simp_all add: isHybrid_def asMixture_def emitted_def)

lemma optimize_loop_eq:
  "optimize_loop a ns added gbn =
     (case those (map (emitted a) (filter (\<lambda>c. isHybrid (conditional c)) (entered ns added))) of
        None \<Rightarrow> Inl No_matching_branch
      | Some gs \<Rightarrow> Inr (gbn @ gs))"
proof (induction ns arbitrary: added gbn)
  case Nil
  show ?case by simp
next
  case (Cons node rest)
  show ?case
  proof (cases "fst node \<in> set added")
    case True
    then show ?thesis by (simp add: Cons.IH)
  next
    case False
    note fresh = this
    show ?thesis
    proof (cases "isHybrid (conditional (snd node))")
      case False
      with fresh show ?thesis by (simp add: Cons.IH Let_def)
    next
      case True
      then obtain gm where gm: "asMixture (conditional (snd node)) = Some gm"
        using isHybrid_asMixture by blast
      show ?thesis
      proof (cases "select_branch gm a")
        case None
        with fresh True gm show ?thesis by (simp add: Let_def emitted_def)
      next
        case (Some g)
        with fresh True gm show ?thesis
          by (simp add: Let_def emitted_def Cons.IH split: option.split)
      qed
    qed
  qed
qed

lemma entered_from:
  "c \<in> set (entered ns added) \<Longrightarrow> \<exists>k. (k, c) \<in> set ns \<and> k \<notin> set added"
proof (induction ns arbitrary: added)
  case Nil
  then show ?case by simp
next
  case (Cons node rest)
  show ?case
  proof (cases "fst node \<in> set added")
    case True
    with Cons.prems have "c \<in> set (entered rest added)" by simp
    from Cons.IH [OF this] show ?thesis by auto
  next
    case False
    with Cons.prems have "c = snd node \<or> c \<in> set (entered rest (added @ frontals (conditional (snd node))))"
      by simp
    then show ?thesis
    proof
      assume "c = snd node"
      with False have "(fst node, c) \<in> set (node # rest) \<and> fst node \<notin> set added" by simp
      then show ?thesis by blast
    next
      assume "c \<in> set (entered rest (added @ frontals (conditional (snd node))))"
      from Cons.IH [OF this] show ?thesis by auto
    qed
  qed
qed

lemma consistent_owner:
  assumes "nodes_consistent N" "(k, c) \<in> set N" "(k', c') \<in> set N"
    and "j \<in> set (frontals (conditional c))" "j \<in> set (frontals (conditional c'))"
  shows "c = c'"
proof -
  from assms(1,2,4) have "(j, c) \<in> set N" by (fastforce simp: nodes_consistent_def)
  moreover from assms(1,3,5) have "(j, c') \<in> set N" by (fastforce simp: nodes_consistent_def)
  moreover from assms(1) have "distinct (map fst N)" by (simp add: nodes_consistent_def)
  ultimately show ?thesis by (rule_tac eq_key_imp_eq_value)
qed

lemma consistent_key_frontal:
  "nodes_consistent N \<Longrightarrow> (k, c) \<in> set N \<Longrightarrow> k \<in> set (frontals (conditional c))"
  by (fastforce simp: nodes_consistent_def)

lemma entered_once:
  assumes "nodes_consistent N"
  shows "set ns \<subseteq> set N \<Longrightarrow>
         length (filter (\<lambda>c. j \<in> set (frontals (conditional c))) (entered ns added)) \<le> 1"
proof (induction ns arbitrary: added)
  case Nil
  then show ?case by simp
next
  case (Cons node rest)
  then have sub: "set rest \<subseteq> set N" and hd: "(fst node, snd node) \<in> set N" by auto
  show ?case
  proof (cases "fst node \<in> set added")
    case True
    then show ?thesis using Cons.IH [OF sub] by simp
  next
    case False
    let ?added = "added @ frontals (conditional (snd node))"
    show ?thesis
    proof (cases "j \<in> set (frontals (conditional (snd node)))")
      case no: False
      with False show ?thesis using Cons.IH [OF sub, of ?added] by simp
    next
      case yes: True
      have "filter (\<lambda>c. j \<in> set (frontals (conditional c))) (entered rest ?added) = []"
      proof (rule ccontr)
        assume "filter (\<lambda>c. j \<in> set (frontals (conditional c))) (entered rest ?added) \<noteq> []"
        then obtain c where c: "c \<in> set (entered rest ?added)"
          and jc: "j \<in> set (frontals (conditional c))"
          by (metis filter_False)
        from entered_from [OF c] obtain k where k: "(k, c) \<in> set rest" "k \<notin> set ?added"
          by blast
        with sub have kN: "(k, c) \<in> set N" by auto
        from consistent_owner [OF assms kN hd jc yes] have "c = snd node" .
        with consistent_key_frontal [OF assms kN] k(2) show False by simp
      qed
      with False yes show ?thesis by simp
    qed
  qed
qed

lemma entered_subset: "set (entered ns added) \<subseteq> snd ` set ns"
  using entered_from by force

lemma entered_distinct:
  assumes "nodes_consistent N"
  shows "set ns \<subseteq> set N \<Longrightarrow> distinct (entered ns added)"
proof (induction ns arbitrary: added)
  case Nil
  then show ?case by simp
next
  case (Cons node rest)
  then have sub: "set rest \<subseteq> set N" by auto
  show ?case
  proof (cases "fst node \<in> set added")
    case True
    then show ?thesis using Cons.IH [OF sub] by simp
  next
    case False
    let ?added = "added @ frontals (conditional (snd node))"
    have "snd node \<notin> set (entered rest ?added)"
    proof
      assume "snd node \<in> set (entered rest ?added)"
      from entered_from [OF this] obtain k
        where k: "(k, snd node) \<in> set rest" "k \<notin> set ?added" by blast
      with sub have "(k, snd node) \<in> set N" by auto
      from consistent_key_frontal [OF assms this] k(2) show False by simp
    qed
    with False show ?thesis using Cons.IH [OF sub, of ?added] by simp
  qed
qed

lemma entered_complete:
  assumes "nodes_consistent N"
  shows "set ns \<subseteq> set N \<Longrightarrow> (k, c) \<in> set ns
         \<Longrightarrow> set (frontals (conditional c)) \<inter> set added = {}
         \<Longrightarrow> c \<in> set (entered ns added)"
proof (induction ns arbitrary: added)
  case Nil
  then show ?case by simp
next
  case (Cons node rest)
  then have sub: "set rest \<subseteq> set N" and hd: "(fst node, snd node) \<in> set N" by auto
  from Cons.prems have kN: "(k, c) \<in> set N" by auto
  show ?case
  proof (cases "snd node = c")
    case same: True
    show ?thesis
    proof (cases "fst node \<in> set added")
      case False
      with same show ?thesis by simp
    next
      case True
      from consistent_key_frontal [OF assms hd] same
      have "fst node \<in> set (frontals (conditional c))" by simp
      with True Cons.prems(3) show ?thesis by auto
    qed
  next
    case other: False
    with Cons.prems(2) have inrest: "(k, c) \<in> set rest" by auto
    show ?thesis
    proof (cases "fst node \<in> set added")
      case True
      then show ?thesis using Cons.IH [OF sub inrest Cons.prems(3)] by simp
    next
      case False
      let ?added = "added @ frontals (conditional (snd node))"
      have "set (frontals (conditional c)) \<inter> set (frontals (conditional (snd node))) = {}"
      proof (rule ccontr)
        assume "set (frontals (conditional c)) \<inter> set (frontals (conditional (snd node))) \<noteq> {}"
        then obtain j where "j \<in> set (frontals (conditional c))"
          "j \<in> set (frontals (conditional (snd node)))" by blast
        from consistent_owner [OF assms kN hd this] other show False by simp
      qed
      with Cons.prems(3) have "set (frontals (conditional c)) \<inter> set ?added = {}" by auto
      from Cons.IH [OF sub inrest this] False show ?thesis by simp
    qed
  qed
qed

lemma distinct_singleton: "distinct xs \<Longrightarrow> set xs = {c} \<Longrightarrow> xs = [c]"
proof (cases xs)
  case Nil
  assume "set xs = {c}"
  with Nil show ?thesis by simp
next
  case (Cons x rest)
  assume d: "distinct xs" and s: "set xs = {c}"
  from s Cons have x: "x = c" and "set rest \<subseteq> {c}" by auto
  moreover from d Cons x have "c \<notin> set rest" by simp
  ultimately have "rest = []" by (cases rest) auto
  with Cons x show ?thesis by simp
qed

lemma those_Some_map: "those xs = Some ys \<Longrightarrow> map Some ys = xs"
  by (induction xs arbitrary: ys) (auto split: option.splits)

lemma those_map_emitted:
  assumes "those (map (emitted a) cs) = Some gs" and "g \<in> set gs"
  shows "\<exists>c\<in>set cs. emitted a c = Some g"
proof -
  from assms(1) have "map Some gs = map (emitted a) cs" by (rule those_Some_map)
  moreover from assms(2) have "Some g \<in> set (map Some gs)" by simp
  ultimately have "Some g \<in> set (map (emitted a) cs)" by simp
  then show ?thesis by auto
qed

lemma mixture_clique_isHybrid: "isHybrid (conditional (mixture_clique y m g0 g1))"
  by (simp add: mixture_clique_def isHybrid_def)

lemma mixture_clique_emitted:
  "a m = Some 0 \<Longrightarrow> emitted a (mixture_clique y m g0 g1) = Some g0"
  by (simp add: mixture_clique_def emitted_def asMixture_def)

lemma pair_nodes_consistent: "nodes_consistent pair_nodes"
  by (simp add: nodes_consistent_def pair_nodes_def pair_clique_def gaussian_clique_def
        discrete_clique_def)

lemma pair_nodes_result: "optimize_bayes_net assignment0 pair_nodes = Inr [10]"
  by (simp add: optimize_bayes_net_def pair_nodes_def pair_clique_def gaussian_clique_def
        discrete_clique_def assignment0_def isHybrid_def asMixture_def Let_def)

subsection \<open>The Gaussian Bayes net of optimize\<close>

text \<open>
  C3. For a tree whose index is consistent and every assignment, the Gaussian Bayes net
  of \<open>optimize\<close> holds one conditional for each clique of a list \<open>cs\<close> of cliques of
  the tree in which no clique stands twice and every key is frontal in at most one
  clique: at most one conditional per frontal variable, in whatever order the index
  lists its entries and however many entries lead to one clique.
\<close>

theorem optimize_once_per_frontal:
  assumes "nodes_consistent ns"
    and "optimize_bayes_net a ns = Inr gbn"
  shows "\<exists>cs. set cs \<subseteq> snd ` set ns \<and> distinct cs \<and>
              map Some gbn = map (emitted a) cs \<and>
              (\<forall>j. length (filter (\<lambda>c. j \<in> set (frontals (conditional c))) cs) \<le> 1)"
proof -
  let ?cs = "filter (\<lambda>c. isHybrid (conditional c)) (entered ns [])"
  have sub: "set ?cs \<subseteq> snd ` set ns" using entered_subset [of ns "[]"] by auto
  have dist: "distinct ?cs" using entered_distinct [OF assms(1), of ns "[]"] by simp
  from assms(2) have "those (map (emitted a) ?cs) = Some gbn"
    by (simp add: optimize_bayes_net_def optimize_loop_eq split: option.splits)
  then have em: "map Some gbn = map (emitted a) ?cs"
    by (rule those_Some_map)
  have once: "length (filter (\<lambda>c. j \<in> set (frontals (conditional c))) ?cs) \<le> 1" for j
  proof -
    have "filter (\<lambda>c. j \<in> set (frontals (conditional c))) ?cs
            = filter (\<lambda>c. isHybrid (conditional c))
                (filter (\<lambda>c. j \<in> set (frontals (conditional c))) (entered ns []))"
      by (auto intro: filter_cong)
    then have "length (filter (\<lambda>c. j \<in> set (frontals (conditional c))) ?cs)
                 \<le> length (filter (\<lambda>c. j \<in> set (frontals (conditional c))) (entered ns []))"
      by (metis length_filter_le)
    also have "\<dots> \<le> 1" using entered_once [OF assms(1), of ns j "[]"] by simp
    finally show ?thesis .
  qed
  from sub dist em once show ?thesis by blast
qed

theorem optimize_once_per_frontal_witness:
  "nodes_consistent pair_nodes \<and>
   optimize_bayes_net assignment0 pair_nodes = Inr [10] \<and>
   (\<exists>cs. set cs \<subseteq> snd ` set pair_nodes \<and> distinct cs \<and>
         map Some [10] = map (emitted assignment0) cs \<and>
         (\<forall>j. length (filter (\<lambda>c. j \<in> set (frontals (conditional c))) cs) \<le> 1))"
  using pair_nodes_consistent pair_nodes_result
    optimize_once_per_frontal [OF pair_nodes_consistent pair_nodes_result]
  by simp

text \<open>
  C9. Every conditional of the Gaussian Bayes net of \<open>optimize\<close> is the branch that the
  mixture of a Hybrid clique of the tree selects under the assignment, and a tree whose
  cliques all hold Gaussian or Discrete conditionals gives the empty net: a clique with
  a purely continuous conditional adds nothing, as a Discrete one.
\<close>

theorem optimize_only_hybrid:
  "(optimize_bayes_net a ns = Inr gbn \<longrightarrow>
      (\<forall>g\<in>set gbn. \<exists>n\<in>set ns. \<exists>gm. kind (conditional (snd n)) = Hybrid gm \<and>
                                        select_branch gm a = Some g)) \<and>
   ((\<forall>n\<in>set ns. \<not> isHybrid (conditional (snd n))) \<longrightarrow> optimize_bayes_net a ns = Inr [])"
proof (intro conjI impI ballI)
  fix g
  let ?cs = "filter (\<lambda>c. isHybrid (conditional c)) (entered ns [])"
  assume "optimize_bayes_net a ns = Inr gbn" and g: "g \<in> set gbn"
  then have "those (map (emitted a) ?cs) = Some gbn"
    by (simp add: optimize_bayes_net_def optimize_loop_eq split: option.splits)
  from those_map_emitted [OF this g] obtain c
    where c: "c \<in> set (entered ns [])" "isHybrid (conditional c)" "emitted a c = Some g"
    by auto
  from isHybrid_asMixture [OF c(2)] obtain gm
    where gm: "asMixture (conditional c) = Some gm" "kind (conditional c) = Hybrid gm"
    by blast
  with c(3) have sel: "select_branch gm a = Some g" by (simp add: emitted_def)
  from entered_from [OF c(1)] obtain k where "(k, c) \<in> set ns" by blast
  with gm(2) sel
  show "\<exists>n\<in>set ns. \<exists>gm. kind (conditional (snd n)) = Hybrid gm \<and> select_branch gm a = Some g"
    by force
next
  assume none: "\<forall>n\<in>set ns. \<not> isHybrid (conditional (snd n))"
  have "filter (\<lambda>c. isHybrid (conditional c)) (entered ns []) = []"
  proof (rule ccontr)
    assume "filter (\<lambda>c. isHybrid (conditional c)) (entered ns []) \<noteq> []"
    then obtain c where c: "c \<in> set (entered ns [])" "isHybrid (conditional c)"
      by (metis filter_False)
    from entered_from [OF c(1)] obtain k where "(k, c) \<in> set ns" by blast
    with none c(2) show False by force
  qed
  then show "optimize_bayes_net a ns = Inr []"
    by (simp add: optimize_bayes_net_def optimize_loop_eq)
qed

theorem optimize_only_hybrid_witness:
  "optimize_bayes_net assignment0 pair_nodes = Inr [10] \<and>
   (\<exists>n\<in>set pair_nodes. \<exists>gm. kind (conditional (snd n)) = Hybrid gm \<and>
                              select_branch gm assignment0 = Some 10) \<and>
   \<not> isHybrid (conditional (snd (1, discrete_clique 1 ()))) \<and>
   \<not> isHybrid (conditional (snd (4, gaussian_clique))) \<and>
   optimize_bayes_net assignment0 plain_nodes = Inr []"
proof -
  have d: "\<not> isHybrid (conditional (discrete_clique 1 ()))"
    by (simp add: isHybrid_def discrete_clique_def)
  have g: "\<not> isHybrid (conditional gaussian_clique)"
    by (simp add: isHybrid_def gaussian_clique_def)
  have "\<forall>n\<in>set plain_nodes. \<not> isHybrid (conditional (snd n))"
    using d g by (simp add: plain_nodes_def)
  with optimize_only_hybrid [of assignment0 plain_nodes "[]"]
  have e: "optimize_bayes_net assignment0 plain_nodes = Inr []" by blast
  from optimize_only_hybrid [of assignment0 pair_nodes "[10]"] pair_nodes_result
  have "\<exists>n\<in>set pair_nodes. \<exists>gm. kind (conditional (snd n)) = Hybrid gm \<and>
                              select_branch gm assignment0 = Some 10"
    by simp
  with pair_nodes_result d g e show ?thesis by simp
qed

text \<open>
  C4. In a tree with a clique that holds a Hybrid conditional over \<open>y\<close> given the binary
  discrete key \<open>m\<close>, with the Gaussian branches \<open>g0\<close> and \<open>g1\<close>, and no other Hybrid
  clique, \<open>optimize\<close> under an assignment that gives \<open>m\<close> the value 0 builds a Gaussian
  Bayes net that contains \<open>g0\<close> and does not contain \<open>g1\<close>.
\<close>

theorem hybrid_scenario:
  assumes "nodes_consistent ns"
    and "(y, mixture_clique y m g0 g1) \<in> set ns"
    and "\<forall>n\<in>set ns. snd n \<noteq> mixture_clique y m g0 g1 \<longrightarrow> \<not> isHybrid (conditional (snd n))"
    and "a m = Some 0"
    and "g0 \<noteq> g1"
  shows "\<exists>gbn. optimize_bayes_net a ns = Inr gbn \<and> g0 \<in> set gbn \<and> g1 \<notin> set gbn"
proof -
  obtain c where c_def: "c = mixture_clique y m g0 g1" and cin: "(y, c) \<in> set ns"
    using assms(2) by simp
  let ?cs = "filter (\<lambda>c. isHybrid (conditional c)) (entered ns [])"
  have hyb: "isHybrid (conditional c)"
    unfolding c_def by (rule mixture_clique_isHybrid)
  have em: "emitted a c = Some g0"
    unfolding c_def using assms(4) by (rule mixture_clique_emitted)
  have "c \<in> set (entered ns [])"
    by (rule entered_complete [OF assms(1) _ cin]) simp_all
  with hyb have inn: "c \<in> set ?cs" by simp
  have "set ?cs \<subseteq> {c}"
  proof
    fix c' assume "c' \<in> set ?cs"
    then have c': "c' \<in> set (entered ns [])" "isHybrid (conditional c')" by simp_all
    from entered_from [OF c'(1)] obtain k where "(k, c') \<in> set ns" by blast
    with assms(3) c'(2) show "c' \<in> {c}" unfolding c_def by force
  qed
  with inn have "set ?cs = {c}" by auto
  moreover have "distinct ?cs" using entered_distinct [OF assms(1), of ns "[]"] by simp
  ultimately have "?cs = [c]" by (metis distinct_singleton)
  with em have "optimize_bayes_net a ns = Inr [g0]"
    by (simp add: optimize_bayes_net_def optimize_loop_eq)
  with assms(5) show ?thesis by simp
qed

theorem hybrid_scenario_witness:
  "nodes_consistent scenario_nodes \<and>
   (2, mixture_clique 2 1 10 11) \<in> set scenario_nodes \<and>
   assignment0 1 = Some 0 \<and> (10::nat) \<noteq> 11 \<and>
   optimize_bayes_net assignment0 scenario_nodes = Inr [10] \<and>
   (\<exists>gbn. optimize_bayes_net assignment0 scenario_nodes = Inr gbn \<and>
          10 \<in> set gbn \<and> 11 \<notin> set gbn)"
proof -
  have c: "nodes_consistent scenario_nodes"
    by (simp add: nodes_consistent_def scenario_nodes_def mixture_clique_def
          discrete_clique_def)
  have i: "(2, mixture_clique 2 1 10 11) \<in> set scenario_nodes"
    by (simp add: scenario_nodes_def)
  have o: "\<forall>n\<in>set scenario_nodes. snd n \<noteq> mixture_clique 2 1 10 11
             \<longrightarrow> \<not> isHybrid (conditional (snd n))"
    by (simp add: scenario_nodes_def discrete_clique_def isHybrid_def)
  have a: "assignment0 1 = Some 0" by (simp add: assignment0_def)
  have n: "(10::nat) \<noteq> 11" by simp
  have r: "optimize_bayes_net assignment0 scenario_nodes = Inr [10]"
    by (simp add: optimize_bayes_net_def scenario_nodes_def mixture_clique_def
          discrete_clique_def assignment0_def isHybrid_def asMixture_def Let_def)
  from c i a n r hybrid_scenario [of scenario_nodes 2 1 10 11 assignment0] o show ?thesis by simp
qed


section \<open>Properties of ISAM::update_internal\<close>

subsection \<open>The parent search\<close>

lemma filter_Cons_props:
  assumes "filter P xs = k # ks"
  shows "P k" and "k \<in> set xs" and "\<And>x. x \<in> set xs \<Longrightarrow> P x \<Longrightarrow> x = k \<or> x \<in> set ks"
proof -
  have s: "set (filter P xs) = set (k # ks)" using assms by simp
  then have "k \<in> set (filter P xs)" by simp
  then show "P k" and "k \<in> set xs" by simp_all
  fix x assume "x \<in> set xs" and "P x"
  then have "x \<in> set (filter P xs)" by simp
  with s show "x = k \<or> x \<in> set ks" by simp
qed

lemma findParentClique_error:
  "findParentClique sep index t = Inl e \<Longrightarrow> e = StructuralError"
  by (auto simp: findParentClique_def split: list.splits if_splits)

lemma findParentClique_found:
  assumes "findParentClique sep index t = Inr k"
  shows "\<exists>p. nodes t k = Some p \<and> k \<in> set sep \<and> separator_ancestor t sep p \<and>
             (\<forall>p'. separator_ancestor t sep p' \<longrightarrow> p' = p)"
proof -
  let ?P = "\<lambda>k. case nodes t k of None \<Rightarrow> False | Some p \<Rightarrow> separator_ancestor t sep p"
  from assms obtain ks where f: "filter ?P sep = k # ks"
    and same: "list_all (\<lambda>k'. nodes t k' = nodes t k) ks"
    by (auto simp: findParentClique_def split: list.splits if_splits)
  from filter_Cons_props(1) [OF f] obtain p
    where p: "nodes t k = Some p" "separator_ancestor t sep p"
    by (auto split: option.splits)
  have "p' = p" if anc: "separator_ancestor t sep p'" for p'
  proof -
    from anc obtain k' where k': "k' \<in> set sep" "nodes t k' = Some p'"
      by (auto simp: separator_ancestor_def)
    with anc have "?P k'" by simp
    from filter_Cons_props(3) [OF f k'(1) this] have "k' = k \<or> k' \<in> set ks" .
    with same have "nodes t k' = nodes t k" by (auto simp: list_all_iff)
    with k'(2) p(1) show ?thesis by simp
  qed
  with p filter_Cons_props(2) [OF f] show ?thesis by blast
qed

lemma findParentClique_none:
  assumes "\<not> (\<exists>!p. separator_ancestor t sep p)"
  shows "findParentClique sep index t = Inl StructuralError"
proof (cases "findParentClique sep index t")
  case (Inl e)
  then show ?thesis using findParentClique_error by blast
next
  case (Inr k)
  from findParentClique_found [OF this] have "\<exists>!p. separator_ancestor t sep p" by blast
  with assms show ?thesis by simp
qed

lemma clique_at_Inr:
  "clique_at t k = Inr p \<Longrightarrow> nodes t k = Some p \<and> cliques t p \<noteq> None"
  by (auto simp: clique_at_def find_clique_def split: option.splits)

subsection \<open>The loop over the orphans\<close>

lemma reattach_append:
  "reattach_orphans (pre @ rest) index t =
     (case reattach_orphans pre index t of
        Inl e \<Rightarrow> Inl e
      | Inr s \<Rightarrow> reattach_orphans rest index s)"
  by (induction pre arbitrary: t) (auto split: option.splits sum.splits)

lemma attach_parent_of:
  "parent_of (set_parent ch par (add_child par ch t)) i =
     (if i = ch \<and> cliques t ch \<noteq> None then Some par else parent_of t i)"
  by (auto simp: parent_of_def set_parent_def add_child_def split: option.splits)

lemma attach_children_of:
  "children_of (set_parent ch par (add_child par ch t)) i =
     (if i = par \<and> cliques t par \<noteq> None then children_of t par @ [ch] else children_of t i)"
  by (auto simp: children_of_def clique_field_def set_parent_def add_child_def
      split: option.splits)

lemma attach_cond_at:
  "cond_at (set_parent ch par (add_child par ch t)) i = cond_at t i"
  by (auto simp: cond_at_def set_parent_def add_child_def split: option.splits)

lemma attach_next_id:
  "next_id (set_parent ch par (add_child par ch t)) = next_id t"
  by (auto simp: set_parent_def add_child_def split: option.splits)

lemma reattach_keeps:
  "reattach_orphans os index t = Inr t' \<Longrightarrow>
     next_id t' = next_id t \<and> (\<forall>i. cond_at t' i = cond_at t i) \<and>
     (\<forall>i. i \<notin> set os \<longrightarrow> parent_of t' i = parent_of t i) \<and>
     (\<forall>i. set (children_of t i) \<subseteq> set (children_of t' i))"
proof (induction os arbitrary: t)
  case Nil
  then show ?case by simp
next
  case (Cons orphan rest)
  from Cons.prems obtain par
    where r: "reattach_orphans rest index (set_parent orphan par (add_child par orphan t)) = Inr t'"
    by (auto split: option.splits sum.splits)
  let ?t1 = "set_parent orphan par (add_child par orphan t)"
  from Cons.IH [OF r] have ih: "next_id t' = next_id ?t1"
    "\<And>i. cond_at t' i = cond_at ?t1 i"
    "\<And>i. i \<notin> set rest \<Longrightarrow> parent_of t' i = parent_of ?t1 i"
    "\<And>i. set (children_of ?t1 i) \<subseteq> set (children_of t' i)"
    by blast+
  have "set (children_of t i) \<subseteq> set (children_of t' i)" for i
  proof -
    have "set (children_of t i) \<subseteq> set (children_of ?t1 i)"
      by (auto simp: attach_children_of)
    with ih(4) [of i] show ?thesis by blast
  qed
  moreover have "parent_of t' i = parent_of t i" if "i \<notin> set (orphan # rest)" for i
    using that ih(3) [of i] by (simp add: attach_parent_of)
  ultimately show ?case using ih(1,2) by (simp add: attach_cond_at attach_next_id)
qed

subsection \<open>The loop over the new conditionals\<close>

lemma add_child_next_id: "next_id (add_child p i t) = next_id t"
  by (simp add: add_child_def split: option.splits)

lemma add_child_cond_at: "cond_at (add_child p i t) j = cond_at t j"
  by (auto simp: cond_at_def add_child_def split: option.splits)

lemma addClique_next_id: "next_id (addClique c par t) = Suc (next_id t)"
  by (simp add: addClique_def Let_def add_child_next_id split: option.splits)

lemma cond_at_nodes_update: "cond_at (t\<lparr>nodes := m\<rparr>) j = cond_at t j"
  by (simp add: cond_at_def)

lemma cond_at_roots_update: "cond_at (t\<lparr>roots := r\<rparr>) j = cond_at t j"
  by (simp add: cond_at_def)

lemma cond_at_cliques_update:
  "cond_at (t\<lparr>cliques := f, next_id := n\<rparr>) j = map_option clique_conditional (f j)"
  by (simp add: cond_at_def)

lemma addClique_cond_at:
  "cond_at (addClique c par t) j = (if j = next_id t then Some c else cond_at t j)"
proof (cases par)
  case None
  then show ?thesis
    by (simp add: addClique_def Let_def cond_at_nodes_update cond_at_roots_update
          cond_at_cliques_update)
       (simp add: cond_at_def)
next
  case (Some p)
  then show ?thesis
    by (simp add: addClique_def Let_def cond_at_nodes_update add_child_cond_at
          cond_at_cliques_update)
       (simp add: cond_at_def)
qed

lemma insert_conditional_grows:
  assumes "insert_conditional c index t = Inr t'"
  shows "next_id t' = Suc (next_id t)"
    and "cond_at t' j = (if j = next_id t then Some c else cond_at t j)"
proof -
  from assms obtain par where "t' = addClique c par t"
    by (auto simp: insert_conditional_def split: if_splits sum.splits)
  then show "next_id t' = Suc (next_id t)"
    and "cond_at t' j = (if j = next_id t then Some c else cond_at t j)"
    by (simp_all add: addClique_next_id addClique_cond_at)
qed

lemma insert_all_grows:
  "insert_all cs index t = Inr t' \<Longrightarrow>
     next_id t' = next_id t + length cs \<and>
     (\<forall>j<length cs. cond_at t' (next_id t + j) = Some (cs ! j)) \<and>
     (\<forall>i<next_id t. cond_at t' i = cond_at t i)"
proof (induction cs arbitrary: t)
  case Nil
  then show ?case by simp
next
  case (Cons c cs)
  from Cons.prems obtain t1 where t1: "insert_conditional c index t = Inr t1"
    and rest: "insert_all cs index t1 = Inr t'"
    by (auto split: sum.splits)
  note g = insert_conditional_grows [OF t1]
  from Cons.IH [OF rest] have ih: "next_id t' = next_id t1 + length cs"
    "\<And>j. j < length cs \<Longrightarrow> cond_at t' (next_id t1 + j) = Some (cs ! j)"
    "\<And>i. i < next_id t1 \<Longrightarrow> cond_at t' i = cond_at t1 i"
    by blast+
  have "cond_at t' (next_id t + j) = Some ((c # cs) ! j)" if "j < length (c # cs)" for j
  proof (cases j)
    case 0
    with ih(3) [of "next_id t"] g show ?thesis by simp
  next
    case (Suc j')
    with that ih(2) [of j'] g(1) show ?thesis by simp
  qed
  moreover have "cond_at t' i = cond_at t i" if "i < next_id t" for i
    using that ih(3) [of i] g by simp
  ultimately show ?case using ih(1) g(1) by simp
qed

subsection \<open>The update\<close>

lemma rebuild_Inr:
  assumes "rebuild gO fac nf bn orphans t = Inr t'"
  shows "\<exists>bayesNet t2.
           eliminate fac (map factor_of bn @ nf) (gO (map factor_of bn @ nf)) = Inr bayesNet \<and>
           insert_all (rev bayesNet) (gO (map factor_of bn @ nf)) t = Inr t2 \<and>
           reattach_orphans orphans (gO (map factor_of bn @ nf)) t2 = Inr t'"
  using assms by (auto simp: rebuild_def Let_def split: sum.splits)

lemma removeTop_nothing: "removeTop [] t = ([], [], t)"
  by (simp add: removeTop_def owning_cliques_def topmost_def collect_def)

text \<open>
  C6. With an empty factor set and an ordering policy that is valid on the empty graph,
  \<open>update\<close> succeeds and returns the tree it was given: the index from variables to
  cliques and every stored conditional are unchanged, so every variable leads to a clique
  that holds the same conditional as before.
\<close>

theorem update_empty_noop:
  assumes "valid_ordering [] (gO [])"
  shows "update gO fac [] t = Inr t"
proof -
  from assms have "gO [] = []" by (simp add: valid_ordering_def graph_keys_def)
  then show ?thesis
    by (simp add: update_def update_internal_def graph_keys_def removeTop_nothing rebuild_def)
qed

theorem update_empty_noop_witness:
  "valid_ordering ([] :: unit Factor list) (graph_keys ([] :: unit Factor list)) \<and>
   update graph_keys unit_fac [] chain_tree = Inr chain_tree"
proof -
  have v: "valid_ordering ([] :: unit Factor list) (graph_keys ([] :: unit Factor list))"
    by (simp add: valid_ordering_def graph_keys_def)
  from v update_empty_noop [of graph_keys unit_fac chain_tree, OF v] show ?thesis by simp
qed

lemma eliminate_1_12:
  "eliminate unit_fac factors_1_12 (graph_keys factors_1_12)
     = Inr [\<lparr> cond_frontals = [1], cond_parents = [2], cond_content = () \<rparr>,
            \<lparr> cond_frontals = [2], cond_parents = [], cond_content = () \<rparr>]"
  by (simp add: factors_1_12_def graph_keys_def eliminate_one_def unit_fac_def Let_def)

lemma update_1_12_succeeds:
  "\<exists>t'. update_internal graph_keys unit_fac factors_1_12 empty_tree = Inr t'"
  by (simp add: update_internal_def removeTop_def owning_cliques_def topmost_def collect_def
        empty_tree_def rebuild_def Let_def factors_1_12_def graph_keys_def eliminate_one_def
        unit_fac_def insert_conditional_def findParentClique_def separator_ancestor_def
        ancestor_or_self_def clique_at_def find_clique_def addClique_def add_child_def
        factor_of_def)

text \<open>
  C2. When \<open>update_internal\<close> succeeds, the cliques it has created, taken in the order
  of their creation (the identifiers from \<open>next_id\<close> of the topless tree on), hold the
  conditionals of the eliminated combined graph in reverse elimination order: the
  first clique created holds the last-eliminated conditional, and so on down to the
  first-eliminated one.
\<close>

theorem inserted_in_reverse_order:
  assumes "update_internal gO fac nf t = Inr t'"
    and "removeTop (graph_keys nf) t = (bn, orphans, t1)"
  shows "\<exists>bayesNet.
           eliminate fac (map factor_of bn @ nf) (gO (map factor_of bn @ nf)) = Inr bayesNet \<and>
           next_id t' = next_id t1 + length bayesNet \<and>
           (\<forall>j<length bayesNet. cond_at t' (next_id t1 + j) = Some (rev bayesNet ! j))"
proof -
  from assms have "rebuild gO fac nf bn orphans t1 = Inr t'"
    by (simp add: update_internal_def)
  from rebuild_Inr [OF this] obtain bayesNet t2
    where e: "eliminate fac (map factor_of bn @ nf) (gO (map factor_of bn @ nf)) = Inr bayesNet"
      and i: "insert_all (rev bayesNet) (gO (map factor_of bn @ nf)) t1 = Inr t2"
      and r: "reattach_orphans orphans (gO (map factor_of bn @ nf)) t2 = Inr t'"
    by blast
  from insert_all_grows [OF i] have g: "next_id t2 = next_id t1 + length bayesNet"
    "\<And>j. j < length bayesNet \<Longrightarrow> cond_at t2 (next_id t1 + j) = Some (rev bayesNet ! j)"
    by simp_all
  from reattach_keeps [OF r] have k: "next_id t' = next_id t2" "\<And>i. cond_at t' i = cond_at t2 i"
    by simp_all
  from e g k show ?thesis by simp
qed

theorem inserted_in_reverse_order_witness:
  "removeTop (graph_keys factors_1_12) (empty_tree :: unit BayesTree)
     = ([], [], empty_tree) \<and>
   eliminate unit_fac factors_1_12 (graph_keys factors_1_12)
     = Inr [\<lparr> cond_frontals = [1], cond_parents = [2], cond_content = () \<rparr>,
            \<lparr> cond_frontals = [2], cond_parents = [], cond_content = () \<rparr>] \<and>
   (\<exists>t'. update_internal graph_keys unit_fac factors_1_12 empty_tree = Inr t' \<and>
         next_id t' = 2 \<and>
         cond_at t' 0 = Some \<lparr> cond_frontals = [2], cond_parents = [], cond_content = () \<rparr> \<and>
         cond_at t' 1 = Some \<lparr> cond_frontals = [1], cond_parents = [2], cond_content = () \<rparr>)"
proof -
  have rt: "removeTop (graph_keys factors_1_12) (empty_tree :: unit BayesTree)
              = ([], [], empty_tree)"
    by (simp add: removeTop_def owning_cliques_def topmost_def collect_def empty_tree_def
          factors_1_12_def graph_keys_def)
  obtain t' where t': "update_internal graph_keys unit_fac factors_1_12 empty_tree = Inr t'"
    using update_1_12_succeeds by blast
  from inserted_in_reverse_order [OF t' rt] eliminate_1_12
  have n: "next_id t' = next_id (empty_tree :: unit BayesTree) + 2"
    and c: "\<forall>j<2. cond_at t' (next_id (empty_tree :: unit BayesTree) + j)
               = Some (rev [\<lparr> cond_frontals = [1], cond_parents = [2], cond_content = () \<rparr>,
                            \<lparr> cond_frontals = [2], cond_parents = [], cond_content = () \<rparr>] ! j)"
    by auto
  from c have "cond_at t' 0 = Some \<lparr> cond_frontals = [2], cond_parents = [], cond_content = () \<rparr>"
    by (simp add: empty_tree_def)
  moreover from c have "cond_at t' (0 + 1)
      = Some \<lparr> cond_frontals = [1], cond_parents = [2], cond_content = () \<rparr>"
    by (simp add: empty_tree_def)
  moreover from n have "next_id t' = 2" by (simp add: empty_tree_def)
  ultimately show ?thesis using rt eliminate_1_12 t' by simp
qed

lemma split_tree_rebuilt:
  "\<exists>bayesNet t2 oc.
     eliminate unit_fac (map factor_of [] @ factors_2_5)
       (graph_keys (map factor_of [] @ factors_2_5)) = Inr bayesNet \<and>
     insert_all (rev bayesNet) (graph_keys (map factor_of [] @ factors_2_5)) split_tree = Inr t2 \<and>
     cliques t2 0 = Some oc \<and>
     (\<forall>p. \<not> separator_ancestor t2 (separator oc) p)"
  by (simp add: factors_2_5_def graph_keys_def eliminate_one_def unit_fac_def Let_def
        split_tree_def insert_conditional_def addClique_def separator_ancestor_def
        ancestor_or_self_def eval_nat_numeral)

text \<open>
  C1. After the re-elimination and the insertion of the new conditionals, when the loop
  over the orphans reaches an orphan whose separator has no single clique of the new
  tree as the ancestor of all of it, the update ends with the structural error; no tree
  is returned, so the orphan is attached nowhere.
\<close>

theorem orphan_without_ancestor_fails:
  assumes "eliminate fac (map factor_of bn @ nf) (gO (map factor_of bn @ nf)) = Inr bayesNet"
    and "insert_all (rev bayesNet) (gO (map factor_of bn @ nf)) t = Inr tn"
    and "reattach_orphans pre (gO (map factor_of bn @ nf)) tn = Inr s"
    and "cliques s orphan = Some oc"
    and "\<not> (\<exists>!p. separator_ancestor s (separator oc) p)"
  shows "rebuild gO fac nf bn (pre @ orphan # post) t = Inl StructuralError"
proof -
  from assms(5)
  have "findParentClique (separator oc) (gO (map factor_of bn @ nf)) s = Inl StructuralError"
    by (rule findParentClique_none)
  with assms(3,4)
  have "reattach_orphans (pre @ orphan # post) (gO (map factor_of bn @ nf)) tn
          = Inl StructuralError"
    by (simp add: reattach_append)
  with assms(1,2) show ?thesis by (simp add: rebuild_def Let_def)
qed

theorem orphan_without_ancestor_fails_witness:
  "(\<exists>bayesNet t2 oc.
      eliminate unit_fac (map factor_of [] @ factors_2_5)
        (graph_keys (map factor_of [] @ factors_2_5)) = Inr bayesNet \<and>
      insert_all (rev bayesNet) (graph_keys (map factor_of [] @ factors_2_5)) split_tree
        = Inr t2 \<and>
      reattach_orphans [] (graph_keys (map factor_of [] @ factors_2_5)) t2 = Inr t2 \<and>
      cliques t2 0 = Some oc \<and>
      \<not> (\<exists>!p. separator_ancestor t2 (separator oc) p)) \<and>
   rebuild graph_keys unit_fac factors_2_5 [] ([] @ 0 # []) split_tree = Inl StructuralError"
proof -
  from split_tree_rebuilt obtain bayesNet t2 oc
    where e: "eliminate unit_fac (map factor_of [] @ factors_2_5)
                (graph_keys (map factor_of [] @ factors_2_5)) = Inr bayesNet"
      and i: "insert_all (rev bayesNet) (graph_keys (map factor_of [] @ factors_2_5)) split_tree
                = Inr t2"
      and oc: "cliques t2 0 = Some oc"
      and no: "\<forall>p. \<not> separator_ancestor t2 (separator oc) p"
    by blast
  have r: "reattach_orphans [] (graph_keys (map factor_of [] @ factors_2_5)) t2 = Inr t2"
    by simp
  from no have nu: "\<not> (\<exists>!p. separator_ancestor t2 (separator oc) p)" by blast
  from orphan_without_ancestor_fails
         [where fac = unit_fac and bn = "[]" and nf = factors_2_5 and gO = graph_keys
            and bayesNet = bayesNet and t = split_tree and tn = t2 and pre = "[]"
            and s = t2 and orphan = 0 and oc = oc and post = "[]"]
       e i r oc nu
  show ?thesis by blast
qed

lemma orphan_tree_rebuilt:
  "\<exists>t'. rebuild graph_keys unit_fac factors_24 freed_2 ([] @ 0 # []) orphan_tree = Inr t' \<and>
        parent_of t' 0 = Some 2 \<and> children_of t' 2 = [0]"
  by (simp add: rebuild_def factors_24_def freed_2_def factor_of_def graph_keys_def
        eliminate_one_def unit_fac_def Let_def orphan_tree_def insert_conditional_def
        addClique_def add_child_def set_parent_def findParentClique_def
        separator_ancestor_def ancestor_or_self_def clique_at_def find_clique_def
        parent_of_def children_of_def clique_field_def eval_nat_numeral)

text \<open>
  C7. When the update succeeds, every orphan handed over by the removal has been
  attached under the one clique that, in the new tree at the moment the orphan is
  reached, is the ancestor of the orphan's whole separator, and both links are in the
  final tree: the orphan's parent back-reference is that clique, and the orphan is among
  that clique's children.
\<close>

theorem orphans_reattached:
  assumes "rebuild gO fac nf bn (pre @ orphan # post) t = Inr t'"
    and "distinct (pre @ orphan # post)"
  shows "\<exists>bayesNet t2 s oc p.
           eliminate fac (map factor_of bn @ nf) (gO (map factor_of bn @ nf)) = Inr bayesNet \<and>
           insert_all (rev bayesNet) (gO (map factor_of bn @ nf)) t = Inr t2 \<and>
           reattach_orphans pre (gO (map factor_of bn @ nf)) t2 = Inr s \<and>
           cliques s orphan = Some oc \<and>
           separator_ancestor s (separator oc) p \<and>
           (\<forall>p'. separator_ancestor s (separator oc) p' \<longrightarrow> p' = p) \<and>
           parent_of t' orphan = Some p \<and>
           orphan \<in> set (children_of t' p)"
proof -
  let ?index = "gO (map factor_of bn @ nf)"
  from rebuild_Inr [OF assms(1)] obtain bayesNet t2
    where e: "eliminate fac (map factor_of bn @ nf) ?index = Inr bayesNet"
      and i: "insert_all (rev bayesNet) ?index t = Inr t2"
      and r: "reattach_orphans (pre @ orphan # post) ?index t2 = Inr t'"
    by blast
  from r obtain s where s: "reattach_orphans pre ?index t2 = Inr s"
    and r': "reattach_orphans (orphan # post) ?index s = Inr t'"
    by (auto simp: reattach_append split: sum.splits)
  from r' obtain oc k p where oc: "cliques s orphan = Some oc"
    and f: "findParentClique (separator oc) ?index s = Inr k"
    and c: "clique_at s k = Inr p"
    and rest: "reattach_orphans post ?index (set_parent orphan p (add_child p orphan s)) = Inr t'"
    by (auto split: option.splits sum.splits)
  let ?s1 = "set_parent orphan p (add_child p orphan s)"
  from clique_at_Inr [OF c] have p: "nodes s k = Some p" "cliques s p \<noteq> None" by simp_all
  from findParentClique_found [OF f] p(1)
  have anc: "separator_ancestor s (separator oc) p"
    and uniq: "\<forall>p'. separator_ancestor s (separator oc) p' \<longrightarrow> p' = p"
    by auto
  from assms(2) have "orphan \<notin> set post" by simp
  with reattach_keeps [OF rest] have "parent_of t' orphan = parent_of ?s1 orphan"
    and "set (children_of ?s1 p) \<subseteq> set (children_of t' p)" by simp_all
  moreover from oc have "parent_of ?s1 orphan = Some p" by (simp add: attach_parent_of)
  moreover from p(2) have "orphan \<in> set (children_of ?s1 p)" by (simp add: attach_children_of)
  ultimately have "parent_of t' orphan = Some p" "orphan \<in> set (children_of t' p)" by auto
  with e i s oc anc uniq show ?thesis by blast
qed

theorem orphans_reattached_witness:
  "distinct ([] @ (0::nat) # []) \<and>
   (\<exists>t'. rebuild graph_keys unit_fac factors_24 freed_2 ([] @ 0 # []) orphan_tree = Inr t' \<and>
         parent_of t' 0 = Some 2 \<and> children_of t' 2 = [0] \<and>
         (\<exists>bayesNet t2 s oc p.
            eliminate unit_fac (map factor_of freed_2 @ factors_24)
              (graph_keys (map factor_of freed_2 @ factors_24)) = Inr bayesNet \<and>
            insert_all (rev bayesNet) (graph_keys (map factor_of freed_2 @ factors_24))
              orphan_tree = Inr t2 \<and>
            reattach_orphans [] (graph_keys (map factor_of freed_2 @ factors_24)) t2 = Inr s \<and>
            cliques s 0 = Some oc \<and>
            separator_ancestor s (separator oc) p \<and>
            (\<forall>p'. separator_ancestor s (separator oc) p' \<longrightarrow> p' = p) \<and>
            parent_of t' 0 = Some p \<and>
            0 \<in> set (children_of t' p)))"
proof -
  have d: "distinct ([] @ (0::nat) # [])" by simp
  from orphan_tree_rebuilt obtain t'
    where t': "rebuild graph_keys unit_fac factors_24 freed_2 ([] @ 0 # []) orphan_tree = Inr t'"
      and c: "parent_of t' 0 = Some 2" "children_of t' 2 = [0]"
    by blast
  from orphans_reattached [OF t' d] d t' c show ?thesis by blast
qed

end
